theory Spec2Isabelle
  imports Complex_Main "HOL-Library.AList" "HOL-Library.Sublist"
begin

section \<open>Python string primitives used by merge\_sprinkler\_data.py\<close>

text \<open>
  A name is a Python \<open>str\<close>. It is modelled as a \<open>string\<close> whose characters are the code
  points 0..255; \<open>of_char c\<close> is the code point. The three character classes below are the
  ones CPython 3 uses on that range: \<open>str.isspace\<close> (used by \<open>str.strip\<close>, \<open>str.split\<close> and
  the pattern \<open>\s\<close>), the pattern \<open>\w\<close>, and the characters that \<open>str.lower\<close> changes
  (each is moved up by 32).
\<close>

definition is_space :: "char \<Rightarrow> bool" where
  "is_space c \<longleftrightarrow>
     (let n = (of_char c :: nat) in (9 \<le> n \<and> n \<le> 13) \<or> (28 \<le> n \<and> n \<le> 32) \<or> n = 133 \<or> n = 160)"

definition is_upper :: "char \<Rightarrow> bool" where
  "is_upper c \<longleftrightarrow>
     (let n = (of_char c :: nat) in
        (65 \<le> n \<and> n \<le> 90) \<or> (192 \<le> n \<and> n \<le> 214) \<or> (216 \<le> n \<and> n \<le> 222))"

definition is_word_char :: "char \<Rightarrow> bool" where
  "is_word_char c \<longleftrightarrow>
     (let n = (of_char c :: nat) in
        (48 \<le> n \<and> n \<le> 57) \<or> (65 \<le> n \<and> n \<le> 90) \<or> n = 95 \<or> (97 \<le> n \<and> n \<le> 122) \<or>
        n = 170 \<or> n = 178 \<or> n = 179 \<or> n = 181 \<or> n = 185 \<or> n = 186 \<or>
        (188 \<le> n \<and> n \<le> 190) \<or> (192 \<le> n \<and> n \<le> 214) \<or> (216 \<le> n \<and> n \<le> 246) \<or>
        (248 \<le> n \<and> n \<le> 255))"

definition lower_char :: "char \<Rightarrow> char" where
  "lower_char c = (if is_upper c then char_of ((of_char c :: nat) + 32) else c)"

text \<open>\<open>s.lower()\<close>\<close>

definition lower :: "string \<Rightarrow> string" where
  "lower s = map lower_char s"

text \<open>\<open>s.strip()\<close>: leading and trailing whitespace removed.\<close>

definition strip :: "string \<Rightarrow> string" where
  "strip s = rev (dropWhile is_space (rev (dropWhile is_space s)))"

text \<open>\<open>s.endswith(suffix)\<close>\<close>

definition endswith :: "string \<Rightarrow> string \<Rightarrow> bool" where
  "endswith s suf \<longleftrightarrow> length suf \<le> length s \<and> drop (length s - length suf) s = suf"

text \<open>\<open>s.split()\<close>: the maximal runs of non-whitespace characters, in order.\<close>

function split_ws :: "string \<Rightarrow> string list" where
  "split_ws s =
     (case dropWhile is_space s of
        [] \<Rightarrow> []
      | c # cs \<Rightarrow> takeWhile (\<lambda>x. \<not> is_space x) (c # cs)
                 # split_ws (dropWhile (\<lambda>x. \<not> is_space x) (c # cs)))"
  by pat_completeness auto
termination
proof (relation "measure length")
  show "wf (measure length)" by simp
next
  fix s :: string and c cs
  assume d: "dropWhile is_space s = c # cs"
  then have "\<not> is_space c"
    by (metis hd_dropWhile list.distinct(1) list.sel(1))
  then have "length (dropWhile (\<lambda>x. \<not> is_space x) (c # cs)) \<le> length cs"
    by (simp add: length_dropWhile_le)
  moreover have "length (c # cs) \<le> length s"
    using d length_dropWhile_le [of is_space s] by simp
  ultimately show "(dropWhile (\<lambda>x. \<not> is_space x) (c # cs), s) \<in> measure length"
    by simp
qed

text \<open>\<open>re.sub(r'[^\w\s]', ' ', s)\<close>: every character that is neither a word character nor
  whitespace becomes one space.\<close>

definition sub_nonword :: "string \<Rightarrow> string" where
  "sub_nonword s = map (\<lambda>c. if is_word_char c \<or> is_space c then c else CHR '' '') s"

text \<open>\<open>re.sub(r'\s+', ' ', s)\<close>: every maximal run of whitespace becomes one space.\<close>

function sub_spaces :: "string \<Rightarrow> string" where
  "sub_spaces [] = []"
| "sub_spaces (c # cs) =
     (if is_space c then CHR '' '' # sub_spaces (dropWhile is_space cs)
      else c # sub_spaces cs)"
  by pat_completeness auto
termination
  by (relation "measure length") (auto simp: length_dropWhile_le less_Suc_eq_le)

section \<open>normalize\_name\<close>

definition suffixes_to_remove :: "string list" where
  "suffixes_to_remove =
     ['' playground'', '' plgd'', '' park playground'', '' park'',
      '' tot lot'', '' playgrnd'', '' plgrnd'']"

text \<open>One turn of the loop over the suffix list: \<open>normalized[:-len(suffix)].strip()\<close> when
  the current string ends with the suffix.\<close>

definition strip_suffix_step :: "string \<Rightarrow> string \<Rightarrow> string" where
  "strip_suffix_step normalized suf =
     (if endswith normalized suf
      then strip (take (length normalized - length suf) normalized)
      else normalized)"

definition normalize_name :: "string \<Rightarrow> string" where
  "normalize_name name =
     (if name = [] then []
      else strip (sub_spaces (sub_nonword
             (foldl strip_suffix_step (strip (lower name)) suffixes_to_remove))))"



section \<open>difflib.SequenceMatcher(None, a, b).ratio()\<close>

text \<open>
  The scorer of the Python standard library, as \<open>similarity_score\<close> calls it: \<open>isjunk\<close> is
  \<open>None\<close>, so no element is junk and the two loops of \<open>find_longest_match\<close> that extend a
  match over junk never run; \<open>autojunk\<close> is on, so when \<open>b\<close> has 200 elements or more, an
  element that occurs more than \<open>len(b) // 100 + 1\<close> times is dropped from \<open>b2j\<close>.
  Indices are natural numbers: \<open>j2len.get(j-1, 0)\<close> is 0 at \<open>j = 0\<close> (no key is negative),
  and \<open>i-k+1\<close> is written \<open>i + 1 - k\<close> (the source keeps \<open>k \<le> i + 1\<close>).
\<close>

text \<open>\<open>b2j.get(elt, nothing)\<close>: the indices of \<open>elt\<close> in \<open>b\<close>, ascending.\<close>

definition b2j_get :: "string \<Rightarrow> char \<Rightarrow> nat list" where
  "b2j_get b elt =
     (let idxs = filter (\<lambda>j. b ! j = elt) [0..<length b]; n = length b in
      if n \<ge> 200 \<and> length idxs > n div 100 + 1 then [] else idxs)"

type_synonym match = "nat \<times> nat \<times> nat"

text \<open>The inner loop \<open>for j in b2j.get(a[i], nothing)\<close>, with its \<open>continue\<close> and \<open>break\<close>;
  the state is \<open>(besti, bestj, bestsize)\<close> and \<open>newj2len\<close>.\<close>

fun scan_js :: "nat \<Rightarrow> nat \<Rightarrow> nat \<Rightarrow> (nat \<rightharpoonup> nat) \<Rightarrow> nat list
                \<Rightarrow> match \<times> (nat \<rightharpoonup> nat) \<Rightarrow> match \<times> (nat \<rightharpoonup> nat)" where
  "scan_js i blo bhi j2len [] st = st"
| "scan_js i blo bhi j2len (j # js) ((besti, bestj, bestsize), newj2len) =
     (if j < blo then scan_js i blo bhi j2len js ((besti, bestj, bestsize), newj2len)
      else if j \<ge> bhi then ((besti, bestj, bestsize), newj2len)
      else
        (let k = (if j = 0 then 0 else case j2len (j - 1) of None \<Rightarrow> 0 | Some v \<Rightarrow> v) + 1
         in scan_js i blo bhi j2len js
              ((if k > bestsize then (i + 1 - k, j + 1 - k, k) else (besti, bestj, bestsize)),
               newj2len(j \<mapsto> k))))"

text \<open>One turn of \<open>for i in range(alo, ahi)\<close>; the state is the best match and \<open>j2len\<close>.\<close>

definition flm_row :: "string \<Rightarrow> string \<Rightarrow> nat \<Rightarrow> nat \<Rightarrow> match \<times> (nat \<rightharpoonup> nat) \<Rightarrow> nat
                        \<Rightarrow> match \<times> (nat \<rightharpoonup> nat)" where
  "flm_row a b blo bhi st i =
     scan_js i blo bhi (snd st) (b2j_get b (a ! i)) (fst st, Map.empty)"

function extend_left :: "string \<Rightarrow> string \<Rightarrow> nat \<Rightarrow> nat \<Rightarrow> match \<Rightarrow> match" where
  "extend_left a b alo blo (besti, bestj, bestsize) =
     (if besti > alo \<and> bestj > blo \<and> a ! (besti - 1) = b ! (bestj - 1)
      then extend_left a b alo blo (besti - 1, bestj - 1, bestsize + 1)
      else (besti, bestj, bestsize))"
  by pat_completeness auto
termination
  by (relation "measure (\<lambda>(a, b, alo, blo, besti, bestj, bestsize). besti)") auto

function extend_right :: "string \<Rightarrow> string \<Rightarrow> nat \<Rightarrow> nat \<Rightarrow> match \<Rightarrow> match" where
  "extend_right a b ahi bhi (besti, bestj, bestsize) =
     (if besti + bestsize < ahi \<and> bestj + bestsize < bhi
         \<and> a ! (besti + bestsize) = b ! (bestj + bestsize)
      then extend_right a b ahi bhi (besti, bestj, bestsize + 1)
      else (besti, bestj, bestsize))"
  by pat_completeness auto
termination
  by (relation "measure (\<lambda>(a, b, ahi, bhi, besti, bestj, bestsize). ahi - (besti + bestsize))")
     auto

definition find_longest_match :: "string \<Rightarrow> string \<Rightarrow> nat \<Rightarrow> nat \<Rightarrow> nat \<Rightarrow> nat \<Rightarrow> match" where
  "find_longest_match a b alo ahi blo bhi =
     extend_right a b ahi bhi
       (extend_left a b alo blo
          (fst (foldl (flm_row a b blo bhi) ((alo, blo, 0), Map.empty) [alo..<ahi])))"

text \<open>What the rows of \<open>find_longest_match\<close> keep true: the best match lies in
  \<open>a[alo:n]\<close> and no run length in \<open>j2len\<close> exceeds \<open>n - alo\<close>. It gives the bounds of the
  returned match, on which the termination of \<open>get_matching_blocks\<close> rests.\<close>

definition flm_inv :: "nat \<Rightarrow> nat \<Rightarrow> match \<times> (nat \<rightharpoonup> nat) \<Rightarrow> bool" where
  "flm_inv alo n st \<longleftrightarrow>
     (case st of ((bi, bj, bs), m) \<Rightarrow>
        alo \<le> bi \<and> bi + bs \<le> n \<and> (\<forall>j v. m j = Some v \<longrightarrow> v \<le> n - alo))"

lemma scan_js_inv:
  "alo \<le> i \<Longrightarrow> (\<forall>j v. j2len j = Some v \<longrightarrow> v \<le> i - alo) \<Longrightarrow> flm_inv alo (Suc i) st
   \<Longrightarrow> flm_inv alo (Suc i) (scan_js i blo bhi j2len js st)"
proof (induction js arbitrary: st)
  case Nil
  then show ?case by simp
next
  case (Cons j js)
  obtain bi bj bs m where st: "st = ((bi, bj, bs), m)"
    by (metis prod.exhaust)
  define p where "p = (if j = 0 then 0 else case j2len (j - 1) of None \<Rightarrow> 0 | Some v \<Rightarrow> v)"
  have "p \<le> i - alo"
  proof (cases "j = 0 \<or> j2len (j - 1) = None")
    case True
    then show ?thesis by (auto simp: p_def)
  next
    case False
    then obtain v where v: "j2len (j - 1) = Some v" by auto
    then have "v \<le> i - alo" using Cons.prems(2) by blast
    then show ?thesis using False v by (simp add: p_def)
  qed
  then have kle: "p + 1 \<le> Suc i - alo" using Cons.prems(1) by simp
  have bnd: "alo \<le> bi" "bi + bs \<le> Suc i" "\<forall>j v. m j = Some v \<longrightarrow> v \<le> Suc i - alo"
    using Cons.prems(3) by (simp_all add: flm_inv_def st)
  have inv': "flm_inv alo (Suc i)
       ((if p + 1 > bs then (i + 1 - (p + 1), j + 1 - (p + 1), p + 1) else (bi, bj, bs)),
        m(j \<mapsto> p + 1))"
    unfolding flm_inv_def using bnd kle Cons.prems(1) by (cases "p + 1 > bs") auto
  have step: "scan_js i blo bhi j2len (j # js) st =
      (if j < blo then scan_js i blo bhi j2len js st
       else if j \<ge> bhi then st
       else scan_js i blo bhi j2len js
          ((if p + 1 > bs then (i + 1 - (p + 1), j + 1 - (p + 1), p + 1) else (bi, bj, bs)),
           m(j \<mapsto> p + 1)))"
    unfolding st p_def by (simp only: scan_js.simps Let_def)
  show ?case
    unfolding step
    using Cons.IH [OF Cons.prems(1,2) Cons.prems(3)] Cons.IH [OF Cons.prems(1,2) inv'] Cons.prems(3)
    by (simp del: scan_js.simps)
qed

lemma flm_row_inv:
  assumes "alo \<le> i" and "flm_inv alo i st"
  shows "flm_inv alo (Suc i) (flm_row a b blo bhi st i)"
proof -
  obtain bi bj bs m where st: "st = ((bi, bj, bs), m)"
    by (metis prod.exhaust)
  have "\<forall>j v. snd st j = Some v \<longrightarrow> v \<le> i - alo"
    using assms(2) by (simp add: flm_inv_def st)
  moreover have "flm_inv alo (Suc i) (fst st, Map.empty)"
    using assms(2) by (simp add: flm_inv_def st)
  ultimately show ?thesis
    unfolding flm_row_def using assms(1) by (rule scan_js_inv [rotated])
qed

lemma flm_rows_inv:
  "flm_inv alo (alo + d) (foldl (flm_row a b blo bhi) ((alo, blo, 0), Map.empty) [alo..<alo + d])"
proof (induction d)
  case 0
  then show ?case by (simp add: flm_inv_def)
next
  case (Suc d)
  then show ?case using flm_row_inv [of alo "alo + d"] by simp
qed

declare extend_left.simps [simp del] extend_right.simps [simp del] split_ws.simps [simp del]

lemma extend_left_range:
  "alo \<le> fst m \<Longrightarrow> extend_left a b alo blo m = (i, j, k)
   \<Longrightarrow> alo \<le> i \<and> i + k = fst m + snd (snd m)"
proof (induction a b alo blo m rule: extend_left.induct)
  case (1 a b alo blo besti bestj bestsize)
  show ?case
  proof (cases "besti > alo \<and> bestj > blo \<and> a ! (besti - 1) = b ! (bestj - 1)")
    case True
    then have "extend_left a b alo blo (besti - 1, bestj - 1, bestsize + 1) = (i, j, k)"
      using "1.prems"(2) by (subst (asm) extend_left.simps) simp
    moreover have "alo \<le> besti - 1" using True by arith
    ultimately have "alo \<le> i \<and> i + k = (besti - 1) + (bestsize + 1)"
      using "1.IH" [OF True] by simp
    then show ?thesis using True by auto
  next
    case False
    then have "(besti, bestj, bestsize) = (i, j, k)"
      using "1.prems"(2) by (subst (asm) extend_left.simps) (auto split: if_splits)
    then show ?thesis using "1.prems"(1) by auto
  qed
qed

lemma extend_right_range:
  "fst m + snd (snd m) \<le> ahi \<Longrightarrow> extend_right a b ahi bhi m = (i, j, k)
   \<Longrightarrow> i = fst m \<and> i + k \<le> ahi"
proof (induction a b ahi bhi m rule: extend_right.induct)
  case (1 a b ahi bhi besti bestj bestsize)
  show ?case
  proof (cases "besti + bestsize < ahi \<and> bestj + bestsize < bhi
         \<and> a ! (besti + bestsize) = b ! (bestj + bestsize)")
    case True
    then have "extend_right a b ahi bhi (besti, bestj, bestsize + 1) = (i, j, k)"
      using "1.prems"(2) by (subst (asm) extend_right.simps) simp
    then show ?thesis
      using "1.IH" [OF True] True by simp
  next
    case False
    then have "(besti, bestj, bestsize) = (i, j, k)"
      using "1.prems"(2) by (subst (asm) extend_right.simps) (auto split: if_splits)
    then show ?thesis using "1.prems"(1) by auto
  qed
qed

lemma find_longest_match_range:
  assumes "find_longest_match a b alo ahi blo bhi = (i, j, k)" and "k \<noteq> 0"
  shows "alo \<le> i \<and> i + k \<le> ahi"
proof (cases "alo \<le> ahi")
  case True
  then obtain d where d: "ahi = alo + d" using le_Suc_ex by blast
  obtain bi bj bs m where f: "foldl (flm_row a b blo bhi) ((alo, blo, 0), Map.empty) [alo..<ahi] = ((bi, bj, bs), m)"
    by (metis prod.exhaust)
  have inv: "alo \<le> bi \<and> bi + bs \<le> ahi"
    using flm_rows_inv [of alo d a b blo bhi] f by (simp add: d flm_inv_def)
  obtain i1 j1 k1 where l: "extend_left a b alo blo (bi, bj, bs) = (i1, j1, k1)"
    by (metis prod.exhaust)
  have "alo \<le> i1 \<and> i1 + k1 = bi + bs"
    using extend_left_range [of alo "(bi, bj, bs)", OF _ l] inv by simp
  moreover have "extend_right a b ahi bhi (i1, j1, k1) = (i, j, k)"
    using assms(1) by (simp add: find_longest_match_def f l)
  ultimately show ?thesis
    using extend_right_range [of "(i1, j1, k1)" ahi a b bhi i j k] inv by simp
next
  case False
  then have "find_longest_match a b alo ahi blo bhi = (alo, blo, 0)"
    by (simp add: find_longest_match_def extend_left.simps extend_right.simps)
  then show ?thesis using assms by simp
qed

text \<open>The work loop of \<open>get_matching_blocks\<close>. The head of \<open>queue\<close> is the element that
  \<open>queue.pop()\<close> takes (the last one appended).\<close>

function matching_loop :: "string \<Rightarrow> string \<Rightarrow> (nat \<times> nat \<times> nat \<times> nat) list \<Rightarrow> match list
                           \<Rightarrow> match list" where
  "matching_loop a b [] matching_blocks = matching_blocks"
| "matching_loop a b ((alo, ahi, blo, bhi) # queue) matching_blocks =
     (case find_longest_match a b alo ahi blo bhi of
        (i, j, k) \<Rightarrow>
          if k \<noteq> 0
          then matching_loop a b
                 ((if i + k < ahi \<and> j + k < bhi then [(i + k, ahi, j + k, bhi)] else [])
                  @ (if alo < i \<and> blo < j then [(alo, i, blo, j)] else [])
                  @ queue)
                 (matching_blocks @ [(i, j, k)])
          else matching_loop a b queue matching_blocks)"
  by pat_completeness auto
termination
proof (relation "measure (\<lambda>(a, b, queue, blocks).
          sum_list (map (\<lambda>(alo, ahi, blo, bhi). 2 * (ahi - alo) + 1) queue))")
  show "wf (measure (\<lambda>(a, b, queue, blocks).
          sum_list (map (\<lambda>(alo, ahi, blo, bhi). 2 * (ahi - alo) + 1) queue)))"
    by simp
next
  fix a b :: string and alo ahi blo bhi queue and matching_blocks :: "match list"
    and i y j k
  assume "(i, y) = find_longest_match a b alo ahi blo bhi" "(j, k) = y" "k \<noteq> 0"
  then have "find_longest_match a b alo ahi blo bhi = (i, j, k)" "k \<noteq> 0"
    by simp_all
  then have "alo \<le> i \<and> i + k \<le> ahi"
    by (rule find_longest_match_range)
  then show "((a, b,
          (if i + k < ahi \<and> j + k < bhi then [(i + k, ahi, j + k, bhi)] else [])
          @ (if alo < i \<and> blo < j then [(alo, i, blo, j)] else []) @ queue,
          matching_blocks @ [(i, j, k)]),
         (a, b, (alo, ahi, blo, bhi) # queue, matching_blocks))
        \<in> measure (\<lambda>(a, b, queue, blocks).
            sum_list (map (\<lambda>(alo, ahi, blo, bhi). 2 * (ahi - alo) + 1) queue))"
    using \<open>k \<noteq> 0\<close> by auto
next
  fix a b :: string and alo ahi blo bhi queue and matching_blocks :: "match list"
  show "((a, b, queue, matching_blocks), (a, b, (alo, ahi, blo, bhi) # queue, matching_blocks))
        \<in> measure (\<lambda>(a, b, queue, blocks).
            sum_list (map (\<lambda>(alo, ahi, blo, bhi). 2 * (ahi - alo) + 1) queue))"
    by simp
qed

text \<open>\<open>ratio()\<close> sums the sizes of the matching blocks. Sorting the blocks, merging adjacent
  ones and appending the sentinel \<open>(la, lb, 0)\<close> do not change that sum, so it is taken over
  the blocks as the loop found them.\<close>

definition get_matching_blocks :: "string \<Rightarrow> string \<Rightarrow> match list" where
  "get_matching_blocks a b = matching_loop a b [(0, length a, 0, length b)] []"

text \<open>\<open>_calculate_ratio\<close>: \<open>2.0 * matches / length\<close>. The score is kept as the exact
  rational; Python rounds it to the nearest double. Rounding is monotone, and two such
  quotients, or one of them and a decimal constant such as 0.99 or 0.8, that differ as
  rationals differ as doubles for all names shorter than \<open>2^25\<close> characters, so the
  comparisons of the source read the same on the rationals.\<close>

definition calculate_ratio :: "nat \<Rightarrow> nat \<Rightarrow> rat" where
  "calculate_ratio matches len = (if len \<noteq> 0 then 2 * of_nat matches / of_nat len else 1)"

definition ratio :: "string \<Rightarrow> string \<Rightarrow> rat" where
  "ratio a b =
     calculate_ratio (sum_list (map (\<lambda>(i, j, k). k) (get_matching_blocks a b)))
       (length a + length b)"

section \<open>similarity\_score and find\_best\_match\<close>

definition similarity_score :: "string \<Rightarrow> string \<Rightarrow> rat" where
  "similarity_score name1 name2 =
     (let norm1 = normalize_name name1; norm2 = normalize_name name2 in
      if norm1 = [] \<or> norm2 = [] then 0
      else if norm1 = norm2 then 1
      else
        (let words1 = set (split_ws norm1); words2 = set (split_ws norm2) in
         if card (words1 \<inter> words2) = 0 then 0
         else ratio norm1 norm2))"

text \<open>One turn of the fuzzy loop; the state is \<open>(best_match, best_score)\<close>.\<close>

definition fuzzy_step :: "string \<Rightarrow> rat \<Rightarrow> string option \<times> rat \<Rightarrow> string
                          \<Rightarrow> string option \<times> rat" where
  "fuzzy_step playground_name threshold st sprinkler_name =
     (let score = similarity_score playground_name sprinkler_name in
      if score > snd st \<and> score \<ge> threshold
      then
        (let playground_words = set (split_ws (normalize_name playground_name));
             sprinkler_words = set (split_ws (normalize_name sprinkler_name));
             shared_words = playground_words \<inter> sprinkler_words
         in if card shared_words \<ge> 2 \<or> score > 99 / 100
            then (Some sprinkler_name, score)
            else st)
      else st)"

text \<open>\<open>find_best_match\<close> with one more result: how many times the fuzzy loop called
  \<open>similarity_score\<close>. The exact pass returns from inside its loop, before the fuzzy loop
  starts; the fuzzy loop has no \<open>break\<close> and scores every name of the pool.\<close>

definition find_best_match_run :: "string \<Rightarrow> string list \<Rightarrow> rat
                                   \<Rightarrow> (string option \<times> rat) \<times> nat" where
  "find_best_match_run playground_name sprinkler_names threshold =
     (let norm_playground = normalize_name playground_name in
      case find (\<lambda>sprinkler_name. norm_playground = normalize_name sprinkler_name)
             sprinkler_names of
        Some sprinkler_name \<Rightarrow> ((Some sprinkler_name, 1), 0)
      | None \<Rightarrow>
          (foldl (fuzzy_step playground_name threshold) (None, 0) sprinkler_names,
           length sprinkler_names))"

definition find_best_match :: "string \<Rightarrow> string list \<Rightarrow> rat \<Rightarrow> string option \<times> rat" where
  "find_best_match playground_name sprinkler_names threshold =
     fst (find_best_match_run playground_name sprinkler_names threshold)"

section \<open>The merge loop of main\<close>

text \<open>
  A record of either dataset is a JSON object: a Python \<open>dict\<close>, here the list of its items
  in insertion order. Reading the files, the console output and the statistics are left
  out; what is modelled is the construction of \<open>sprinkler_names\<close> and \<open>sprinkler_lookup\<close>
  and the loop over \<open>playground_data\<close>, with the two counters as the record of which branch
  matched a playground.
\<close>

datatype json = JNull | JBool bool | JNum rat | JStr string
  | JArray "json list" | JObject "(string \<times> json) list"

type_synonym json_object = "(string \<times> json) list"

datatype error = AttributeError | KeyError

text \<open>\<open>d.get(key, default)\<close> on a JSON object.\<close>

definition dict_get :: "json_object \<Rightarrow> string \<Rightarrow> json \<Rightarrow> json" where
  "dict_get d key dflt = (case map_of d key of Some v \<Rightarrow> v | None \<Rightarrow> dflt)"

text \<open>\<open>v.strip()\<close> on a value read from a record: only a \<open>str\<close> has the method.\<close>

fun value_strip :: "json \<Rightarrow> error + string" where
  "value_strip (JStr s) = Inr (strip s)"
| "value_strip v = Inl AttributeError"

text \<open>The truth value of \<open>best_match\<close> and \<open>exact_match\<close>: \<open>None\<close> and the empty string are
  false.\<close>

fun truthy :: "string option \<Rightarrow> bool" where
  "truthy None = False"
| "truthy (Some s) = (s \<noteq> [])"

record sprinkler_info =
  status :: json
  system :: json
  district :: json
  featuretype :: json

text \<open>One turn of \<open>for sprinkler in sprinkler_data\<close>; the state is \<open>sprinkler_names\<close> (a
  Python \<open>set\<close>) and \<open>sprinkler_lookup\<close>.\<close>

definition add_sprinkler :: "string set \<times> (string \<rightharpoonup> sprinkler_info) \<Rightarrow> json_object
                             \<Rightarrow> error + string set \<times> (string \<rightharpoonup> sprinkler_info)" where
  "add_sprinkler st sprinkler =
     (case value_strip (dict_get sprinkler ''subpropertyname'' (JStr [])) of
        Inl e \<Rightarrow> Inl e
      | Inr name \<Rightarrow>
          if name \<noteq> []
          then Inr (insert name (fst st),
                    (snd st)(name \<mapsto>
                      \<lparr>status = dict_get sprinkler ''status'' (JStr []),
                       system = dict_get sprinkler ''system'' (JStr []),
                       district = dict_get sprinkler ''district'' (JStr []),
                       featuretype = dict_get sprinkler ''featuretype'' (JStr [])\<rparr>))
          else Inr st)"

fun build_pool :: "string set \<times> (string \<rightharpoonup> sprinkler_info) \<Rightarrow> json_object list
                   \<Rightarrow> error + string set \<times> (string \<rightharpoonup> sprinkler_info)" where
  "build_pool st [] = Inr st"
| "build_pool st (sprinkler # sprinkler_data) =
     (case add_sprinkler st sprinkler of
        Inl e \<Rightarrow> Inl e
      | Inr st' \<Rightarrow> build_pool st' sprinkler_data)"

record merge_state =
  matched_count :: nat
  fuzzy_matched_count :: nat
  enhanced_playgrounds :: "json_object list"

text \<open>\<open>d[key] = v\<close> on a \<open>dict\<close> is \<open>AList.update\<close>: the value is replaced in place when the key
  is there, and the item is appended otherwise.\<close>

definition init_sprinkler_fields :: "json_object \<Rightarrow> json_object" where
  "init_sprinkler_fields playground =
     AList.update ''sprinkler_district'' JNull
       (AList.update ''sprinkler_system'' JNull
          (AList.update ''sprinkler_status'' JNull
             (AList.update ''has_sprinkler'' (JBool False) playground)))"

definition set_sprinkler_fields :: "json_object \<Rightarrow> sprinkler_info \<Rightarrow> json_object" where
  "set_sprinkler_fields enhanced_playground sprinkler_info =
     AList.update ''sprinkler_district'' (district sprinkler_info)
       (AList.update ''sprinkler_system'' (system sprinkler_info)
          (AList.update ''sprinkler_status'' (status sprinkler_info)
             (AList.update ''has_sprinkler'' (JBool True) enhanced_playground)))"

text \<open>One turn of \<open>for playground in playground_data\<close>. The list \<open>sprinkler_names\<close> is the
  order in which Python iterates the set of that name; the source fixes no such order.\<close>

definition process_playground :: "string list \<Rightarrow> (string \<rightharpoonup> sprinkler_info) \<Rightarrow> merge_state
                                  \<Rightarrow> json_object \<Rightarrow> error + merge_state" where
  "process_playground sprinkler_names sprinkler_lookup st playground =
     (case value_strip (dict_get playground ''Name'' (JStr [])) of
        Inl e \<Rightarrow> Inl e
      | Inr playground_name \<Rightarrow>
          (let enhanced_playground = init_sprinkler_fields playground in
           if playground_name = []
           then Inr (st\<lparr>enhanced_playgrounds := enhanced_playgrounds st @ [enhanced_playground]\<rparr>)
           else
             (let exact_match =
                    find (\<lambda>sprinkler_name.
                            strip (lower playground_name) = strip (lower sprinkler_name))
                      sprinkler_names
              in if truthy exact_match
                 then (case sprinkler_lookup (the exact_match) of
                         None \<Rightarrow> Inl KeyError
                       | Some sprinkler_info \<Rightarrow>
                           Inr (st\<lparr>matched_count := matched_count st + 1,
                                   enhanced_playgrounds := enhanced_playgrounds st
                                     @ [set_sprinkler_fields enhanced_playground sprinkler_info]\<rparr>))
                 else
                   (case find_best_match playground_name sprinkler_names (4 / 5) of
                      (best_match, score) \<Rightarrow>
                        if truthy best_match
                        then (case sprinkler_lookup (the best_match) of
                                None \<Rightarrow> Inl KeyError
                              | Some sprinkler_info \<Rightarrow>
                                  Inr (st\<lparr>fuzzy_matched_count := fuzzy_matched_count st + 1,
                                          enhanced_playgrounds := enhanced_playgrounds st
                                            @ [set_sprinkler_fields enhanced_playground
                                                 sprinkler_info]\<rparr>))
                        else Inr (st\<lparr>enhanced_playgrounds :=
                                        enhanced_playgrounds st @ [enhanced_playground]\<rparr>)))))"

fun process_all :: "string list \<Rightarrow> (string \<rightharpoonup> sprinkler_info) \<Rightarrow> merge_state
                    \<Rightarrow> json_object list \<Rightarrow> error + merge_state" where
  "process_all sprinkler_names sprinkler_lookup st [] = Inr st"
| "process_all sprinkler_names sprinkler_lookup st (playground # playground_data) =
     (case process_playground sprinkler_names sprinkler_lookup st playground of
        Inl e \<Rightarrow> Inl e
      | Inr st' \<Rightarrow> process_all sprinkler_names sprinkler_lookup st' playground_data)"

text \<open>The two loops of \<open>main\<close> in sequence. \<open>names_order\<close> is the iteration order of the set
  \<open>sprinkler_names\<close>.\<close>

definition main_merge :: "json_object list \<Rightarrow> json_object list \<Rightarrow> string list
                     \<Rightarrow> error + merge_state" where
  "main_merge sprinkler_data playground_data names_order =
     (case build_pool ({}, Map.empty) sprinkler_data of
        Inl e \<Rightarrow> Inl e
      | Inr (sprinkler_names, sprinkler_lookup) \<Rightarrow>
          process_all names_order sprinkler_lookup
            \<lparr>matched_count = 0, fuzzy_matched_count = 0, enhanced_playgrounds = []\<rparr>
            playground_data)"

section \<open>Predicates used in the proofs\<close>

text \<open>A string in which every whitespace character is a single blank between two other
  characters or at an end: the shape that \<open>sub_spaces\<close> produces.\<close>

fun ws_ok :: "string \<Rightarrow> bool" where
  "ws_ok [] = True"
| "ws_ok (c # cs) =
     ((is_space c \<longrightarrow> c = CHR '' '' \<and> (cs = [] \<or> \<not> is_space (hd cs))) \<and> ws_ok cs)"

text \<open>The characters of a normalized name: word characters and blanks, all fixed by
  \<open>lower_char\<close>.\<close>

definition norm_char :: "char \<Rightarrow> bool" where
  "norm_char c \<longleftrightarrow> (is_word_char c \<or> is_space c) \<and> lower_char c = c"

text \<open>The relation kept between the fuzzy loop at a threshold \<open>t1\<close> (state \<open>st1\<close>) and at a
  higher threshold \<open>t2\<close> (state \<open>st2\<close>) over the same pool: either the two states agree, or
  the second loop has accepted nothing and the first holds a score below \<open>t2\<close>.\<close>

definition threshold_sim :: "rat \<Rightarrow> string option \<times> rat \<Rightarrow> string option \<times> rat \<Rightarrow> bool" where
  "threshold_sim t2 st1 st2 \<longleftrightarrow>
     0 \<le> snd st1
     \<and> (st2 = st1 \<and> (st1 = (None, 0) \<or> t2 \<le> snd st1) \<or> st2 = (None, 0) \<and> snd st1 < t2)"

section \<open>Lemmas on the string primitives\<close>

lemma lower_char_idem: "lower_char (lower_char c) = lower_char c"
proof (cases "is_upper c")
  case False
  then show ?thesis by (simp add: lower_char_def)
next
  case True
  have lt: "(of_char c :: nat) < 256" by simp
  from True have "(of_char c :: nat) + 32 < 256"
    by (auto simp: is_upper_def Let_def)
  then have "(of_char (char_of ((of_char c :: nat) + 32) :: char) :: nat) = of_char c + 32"
    by simp
  then have "\<not> is_upper (char_of ((of_char c :: nat) + 32))"
    using True unfolding is_upper_def Let_def by simp arith
  then show ?thesis using True by (simp add: lower_char_def)
qed


lemma lower_char_blank: "lower_char CHR '' '' = CHR '' ''"
  by code_simp

lemma is_space_blank: "is_space CHR '' ''"
  by code_simp

lemma strip_Nil: "strip [] = []"
  by (simp add: strip_def)

lemma strip_decomp: "\<exists>pre post. s = pre @ strip s @ post"
proof -
  have "s = takeWhile is_space s @ dropWhile is_space s" by simp
  moreover have "dropWhile is_space s
      = rev (dropWhile is_space (rev (dropWhile is_space s)))
        @ rev (takeWhile is_space (rev (dropWhile is_space s)))"
    by (metis rev_append rev_rev_ident takeWhile_dropWhile_id)
  ultimately show ?thesis unfolding strip_def by metis
qed

lemma set_strip: "set (strip s) \<subseteq> set s"
  using strip_decomp [of s] by (metis Un_upper1 Un_upper2 set_append subset_trans)

lemma strip_ends:
  "strip s = [] \<or> (\<not> is_space (hd (strip s)) \<and> \<not> is_space (last (strip s)))"
proof (cases "strip s = []")
  case True
  then show ?thesis by simp
next
  case False
  define t where "t = dropWhile is_space s"
  define u where "u = dropWhile is_space (rev t)"
  have su: "strip s = rev u" by (simp add: strip_def t_def u_def)
  then have une: "u \<noteq> []" using False by simp
  then have "\<not> is_space (hd u)" unfolding u_def by (rule hd_dropWhile)
  then have l: "\<not> is_space (last (strip s))"
    using une by (simp add: su last_rev)
  have tne: "t \<noteq> []" using une by (auto simp: u_def)
  then have ht: "\<not> is_space (hd t)" unfolding t_def by (rule hd_dropWhile)
  have "rev t = takeWhile is_space (rev t) @ u" by (simp add: u_def)
  then have "last (rev t) = last u" using une by (metis last_appendR)
  then have "hd (rev u) = hd t" using tne une by (simp add: hd_rev last_rev)
  then show ?thesis using ht l by (simp add: su)
qed

lemma strip_fixed:
  assumes "s = [] \<or> (\<not> is_space (hd s) \<and> \<not> is_space (last s))"
  shows "strip s = s"
proof (cases "s = []")
  case True
  then show ?thesis by (simp add: strip_Nil)
next
  case False
  then have h: "\<not> is_space (hd s)" and l: "\<not> is_space (last s)" using assms by auto
  have "dropWhile is_space s = s" using False h by (cases s) auto
  moreover have "dropWhile is_space (rev s) = rev s"
    using False l by (cases "rev s") (auto simp: last_rev hd_rev [symmetric])
  ultimately show ?thesis by (simp add: strip_def)
qed

lemma strip_idem: "strip (strip s) = strip s"
  by (rule strip_fixed) (rule strip_ends)


lemma sub_spaces_hd: "\<not> is_space c \<Longrightarrow> hd (sub_spaces (c # cs)) = c"
  by simp

lemma ws_ok_sub_spaces: "ws_ok (sub_spaces s)"
proof (induction s rule: sub_spaces.induct)
  case 1
  then show ?case by simp
next
  case (2 c cs)
  show ?case
  proof (cases "is_space c")
    case False
    then show ?thesis using 2 by simp
  next
    case True
    have "sub_spaces (dropWhile is_space cs) = []
          \<or> \<not> is_space (hd (sub_spaces (dropWhile is_space cs)))"
    proof (cases "dropWhile is_space cs")
      case Nil
      then have "sub_spaces (dropWhile is_space cs) = []"
        by (simp only: sub_spaces.simps)
      then show ?thesis ..
    next
      case (Cons d ds)
      then have "\<not> is_space d"
        by (metis hd_dropWhile list.distinct(1) list.sel(1))
      then show ?thesis by (simp only: Cons sub_spaces.simps if_False list.sel simp_thms)
    qed
    then show ?thesis using True 2 by simp
  qed
qed

lemma sub_spaces_fixed: "ws_ok s \<Longrightarrow> sub_spaces s = s"
proof (induction s rule: sub_spaces.induct)
  case 1
  then show ?case by simp
next
  case (2 c cs)
  show ?case
  proof (cases "is_space c")
    case False
    then show ?thesis using 2 by simp
  next
    case True
    then have c: "c = CHR '' ''" and h: "cs = [] \<or> \<not> is_space (hd cs)" and w: "ws_ok cs"
      using "2.prems" by auto
    have d: "dropWhile is_space cs = cs" using h by (cases cs) auto
    show ?thesis using True c d w "2.IH"(1) by simp
  qed
qed

lemma ws_ok_append_left: "ws_ok (xs @ ys) \<Longrightarrow> ws_ok xs"
proof (induction xs)
  case Nil
  then show ?case by simp
next
  case (Cons c xs)
  then show ?case by (cases xs) auto
qed

lemma ws_ok_append_right: "ws_ok (xs @ ys) \<Longrightarrow> ws_ok ys"
  by (induction xs) auto

lemma ws_ok_strip: "ws_ok s \<Longrightarrow> ws_ok (strip s)"
  using strip_decomp [of s] by (metis ws_ok_append_left ws_ok_append_right)

lemma set_sub_spaces: "set (sub_spaces s) \<subseteq> insert CHR '' '' (set s)"
proof (induction s rule: sub_spaces.induct)
  case 1
  then show ?case by simp
next
  case (2 c cs)
  show ?case
  proof (cases "is_space c")
    case False
    then show ?thesis using 2 by auto
  next
    case True
    have "set (dropWhile is_space cs) \<subseteq> set cs"
      by (auto dest: set_dropWhileD)
    then show ?thesis using True "2.IH"(1) by auto
  qed
qed

lemma set_strip_suffix_step: "set (strip_suffix_step s suf) \<subseteq> set s"
  using set_strip [of "take (length s - length suf) s"] set_take_subset [of "length s - length suf" s]
  by (auto simp: strip_suffix_step_def)

lemma set_strip_suffixes: "set (foldl strip_suffix_step s sufs) \<subseteq> set s"
proof (induction sufs arbitrary: s)
  case Nil
  then show ?case by simp
next
  case (Cons suf sufs)
  then show ?case using set_strip_suffix_step [of s suf] by (metis foldl_Cons subset_trans)
qed

lemma norm_char_blank: "norm_char CHR '' ''"
  by (simp add: norm_char_def is_space_blank lower_char_blank)

lemma normalize_name_chars: "c \<in> set (normalize_name x) \<Longrightarrow> norm_char c"
proof (cases "x = []")
  case True
  assume "c \<in> set (normalize_name x)"
  then show ?thesis using True by (simp add: normalize_name_def)
next
  case False
  define z where "z = foldl strip_suffix_step (strip (lower x)) suffixes_to_remove"
  assume "c \<in> set (normalize_name x)"
  then have "c \<in> set (strip (sub_spaces (sub_nonword z)))"
    using False by (simp add: normalize_name_def z_def)
  then have "c \<in> insert CHR '' '' (set (sub_nonword z))"
    using set_strip set_sub_spaces by blast
  moreover have "\<And>d. d \<in> set (sub_nonword z) \<Longrightarrow> norm_char d"
  proof -
    fix d assume "d \<in> set (sub_nonword z)"
    then obtain e where e: "e \<in> set z"
      and d: "d = (if is_word_char e \<or> is_space e then e else CHR '' '')"
      by (auto simp: sub_nonword_def)
    have "e \<in> set (lower x)"
      using e set_strip_suffixes set_strip unfolding z_def by blast
    then have "lower_char e = e"
      by (auto simp: lower_def lower_char_idem)
    then show "norm_char d"
      using d norm_char_blank by (auto simp: norm_char_def)
  qed
  ultimately show ?thesis using norm_char_blank by auto
qed

lemma no_suffix_fold:
  "\<forall>suf \<in> set sufs. \<not> endswith s suf \<Longrightarrow> foldl strip_suffix_step s sufs = s"
  by (induction sufs) (simp_all add: strip_suffix_step_def)

section \<open>Lemmas on the suffix loop\<close>









section \<open>Lemmas on the fuzzy loop and the merge loop\<close>

lemma fuzzy_step_sim:
  assumes "t1 \<le> t2" and "threshold_sim t2 st1 st2"
  shows "threshold_sim t2 (fuzzy_step q t1 st1 c) (fuzzy_step q t2 st2 c)"
proof -
  obtain m1 b1 where st1: "st1 = (m1, b1)" by (cases st1)
  obtain m2 b2 where st2: "st2 = (m2, b2)" by (cases st2)
  show ?thesis
    using assms unfolding threshold_sim_def fuzzy_step_def Let_def st1 st2
    by (auto split: if_splits)
qed

lemma fuzzy_loop_sim:
  "t1 \<le> t2 \<Longrightarrow> threshold_sim t2 st1 st2
   \<Longrightarrow> threshold_sim t2 (foldl (fuzzy_step q t1) st1 pool) (foldl (fuzzy_step q t2) st2 pool)"
proof (induction pool arbitrary: st1 st2)
  case Nil
  then show ?case by simp
next
  case (Cons c pool)
  then show ?case using fuzzy_step_sim [of t1 t2 st1 st2 q c] by simp
qed


lemma singleton_order:
  assumes "distinct names" and "set names = {x}"
  shows "names = [x]"
proof (cases names)
  case Nil
  then show ?thesis using assms by simp
next
  case (Cons y ys)
  then have "y = x" using assms(2) by auto
  moreover have "ys = []"
  proof (cases ys)
    case Nil
    then show ?thesis .
  next
    case (Cons z zs)
    then have "z \<in> set names" "z \<noteq> y"
      using \<open>names = y # ys\<close> assms(1) by auto
    then show ?thesis using assms(2) \<open>y = x\<close> by auto
  qed
  ultimately show ?thesis using Cons by simp
qed

section \<open>Properties\<close>

subsection \<open>The exact pass\<close>

text \<open>
  C1. When some name of the pool has the normalized form of the query, \<open>find_best_match\<close>
  returns a name of the pool with that normalized form and the score 1, and the fuzzy loop
  has scored no name.
\<close>

theorem exact_pass_precedence:
  assumes "\<exists>c \<in> set pool. normalize_name c = normalize_name q"
  shows "\<exists>c \<in> set pool. normalize_name c = normalize_name q
           \<and> find_best_match q pool t = (Some c, 1)
           \<and> find_best_match_run q pool t = ((Some c, 1), 0)"
proof -
  from assms have "find (\<lambda>s. normalize_name q = normalize_name s) pool \<noteq> None"
    by (auto simp: find_None_iff)
  then obtain c where c: "find (\<lambda>s. normalize_name q = normalize_name s) pool = Some c"
    by blast
  then have "c \<in> set pool" "normalize_name c = normalize_name q"
    by (auto simp: find_Some_iff)
  then show ?thesis
    using c by (auto simp: find_best_match_def find_best_match_run_def)
qed

theorem exact_pass_precedence_witness:
  "(\<exists>c \<in> set [''Prospect Park'', ''Fort Greene Playground''].
       normalize_name c = normalize_name ''Fort Greene Park'')
   \<and> find_best_match_run ''Fort Greene Park'' [''Prospect Park'', ''Fort Greene Playground'']
         (49 / 50) = ((Some ''Fort Greene Playground'', 1), 0)"
proof -
  have n: "normalize_name ''Fort Greene Park'' = ''fort greene''"
    "normalize_name ''Fort Greene Playground'' = ''fort greene''"
    "normalize_name ''Prospect Park'' = ''prospect''"
    by code_simp+
  have h: "\<exists>c \<in> set [''Prospect Park'', ''Fort Greene Playground''].
       normalize_name c = normalize_name ''Fort Greene Park''"
    by (simp add: n)
  from exact_pass_precedence [OF h, of "49 / 50"] h show ?thesis
    by (auto simp: n)
qed

subsection \<open>The fuzzy pass\<close>



subsection \<open>Names that share no word\<close>

text \<open>
  C3. Two names whose normalized forms are non-empty, different and without a common word
  score 0. For the query "Dan Ross Playground" and the pool holding only "Diana Ross Park",
  \<open>find_best_match\<close> returns no match at every threshold. (The two normalized forms,
  "dan ross" and "diana ross", share the word "ross" and score 8/9; the candidate is
  turned down by the test on two shared words or a score above 0.99.)
\<close>

theorem zero_shared_word_rejection:
  "(normalize_name x \<noteq> [] \<and> normalize_name y \<noteq> [] \<and> normalize_name x \<noteq> normalize_name y
      \<and> set (split_ws (normalize_name x)) \<inter> set (split_ws (normalize_name y)) = {}
      \<longrightarrow> similarity_score x y = 0)
   \<and> find_best_match ''Dan Ross Playground'' [''Diana Ross Park''] t = (None, 0)"
proof -
  have n: "normalize_name ''Dan Ross Playground'' = ''dan ross''"
    "normalize_name ''Diana Ross Park'' = ''diana ross''"
    by code_simp+
  have s: "similarity_score ''Dan Ross Playground'' ''Diana Ross Park'' = 8 / 9"
    by code_simp
  have w: "card (set (split_ws ''dan ross'') \<inter> set (split_ws ''diana ross'')) = 1"
    by code_simp
  have "find_best_match ''Dan Ross Playground'' [''Diana Ross Park''] t = (None, 0)"
    by (simp add: find_best_match_def find_best_match_run_def fuzzy_step_def Let_def n s w)
  then show ?thesis
    by (simp add: similarity_score_def)
qed

theorem zero_shared_word_rejection_witness:
  "normalize_name ''Dan Ross'' \<noteq> [] \<and> normalize_name ''Diana Smith Park'' \<noteq> []
   \<and> normalize_name ''Dan Ross'' \<noteq> normalize_name ''Diana Smith Park''
   \<and> set (split_ws (normalize_name ''Dan Ross''))
        \<inter> set (split_ws (normalize_name ''Diana Smith Park'')) = {}
   \<and> similarity_score ''Dan Ross'' ''Diana Smith Park'' = 0"
proof -
  have n: "normalize_name ''Dan Ross'' = ''dan ross''"
    "normalize_name ''Diana Smith Park'' = ''diana smith''"
    by code_simp+
  have w: "set (split_ws ''dan ross'') \<inter> set (split_ws ''diana smith'') = {}"
    by code_simp
  show ?thesis
    using zero_shared_word_rejection [of "''Dan Ross''" "''Diana Smith Park''" 0]
    by (simp add: n w)
qed

subsection \<open>Idempotence of normalize\_name\<close>

text \<open>
  C4, as stated, fails: a suffix of the list can come to the end of the string only after
  the loop has passed it, or after the punctuation has been replaced. "a park park"
  normalizes to "a park", which normalizes to "a".
\<close>

theorem normalize_name_not_idempotent:
  "normalize_name (normalize_name ''a park park'') \<noteq> normalize_name ''a park park''"
  by code_simp

text \<open>
  C4, as the code has it. \<open>normalize_name\<close> leaves a normalized name unchanged whenever that
  name ends with none of the suffixes of the list.
\<close>

theorem normalize_name_idempotent_without_suffix:
  assumes "\<forall>suf \<in> set suffixes_to_remove. \<not> endswith (normalize_name x) suf"
  shows "normalize_name (normalize_name x) = normalize_name x"
proof (cases "normalize_name x = []")
  case True
  then show ?thesis by (simp add: normalize_name_def)
next
  case False
  define y where "y = normalize_name x"
  have xne: "x \<noteq> []" using False by (auto simp: normalize_name_def)
  then obtain w where y: "y = strip (sub_spaces w)"
    unfolding y_def normalize_name_def by simp
  have chars: "\<forall>c \<in> set y. norm_char c"
    unfolding y_def using normalize_name_chars by blast
  have lo: "lower y = y"
    unfolding lower_def using chars by (intro map_idI) (simp add: norm_char_def)
  have st: "strip y = y"
    unfolding y by (rule strip_idem)
  have sf: "foldl strip_suffix_step y suffixes_to_remove = y"
    using assms unfolding y_def by (rule no_suffix_fold)
  have nw: "sub_nonword y = y"
    unfolding sub_nonword_def using chars by (intro map_idI) (simp add: norm_char_def)
  have "ws_ok y"
    unfolding y by (rule ws_ok_strip) (rule ws_ok_sub_spaces)
  then have sp: "sub_spaces y = y" by (rule sub_spaces_fixed)
  have "normalize_name y = y"
    using False by (simp add: normalize_name_def y_def [symmetric] lo st sf nw sp)
  then show ?thesis by (simp add: y_def)
qed

theorem normalize_name_idempotent_without_suffix_witness:
  "list_all (\<lambda>suf. \<not> endswith (normalize_name ''Fort Greene Park'') suf) suffixes_to_remove
   \<and> normalize_name (normalize_name ''Fort Greene Park'') = normalize_name ''Fort Greene Park''"
proof -
  have n: "normalize_name ''Fort Greene Park'' = ''fort greene''"
    by code_simp
  have l: "list_all (\<lambda>suf. \<not> endswith ''fort greene'' suf) suffixes_to_remove"
    by code_simp
  then have h: "\<forall>suf \<in> set suffixes_to_remove. \<not> endswith (normalize_name ''Fort Greene Park'') suf"
    by (simp add: n list_all_iff)
  show ?thesis
    using normalize_name_idempotent_without_suffix [OF h] l by (simp add: n)
qed

subsection \<open>How many suffixes are removed\<close>



subsection \<open>Punctuation\<close>



subsection \<open>The threshold\<close>

text \<open>
  C7. For thresholds \<open>t1 \<le> t2\<close>, a query and a pool: when \<open>find_best_match\<close> returns no
  match at \<open>t1\<close> it returns none at \<open>t2\<close>, and when it returns a match at both it returns the
  same candidate.
\<close>

theorem threshold_monotone:
  assumes "t1 \<le> t2"
  shows "(fst (find_best_match q pool t1) = None \<longrightarrow> fst (find_best_match q pool t2) = None)
         \<and> (fst (find_best_match q pool t1) \<noteq> None \<and> fst (find_best_match q pool t2) \<noteq> None
              \<longrightarrow> fst (find_best_match q pool t1) = fst (find_best_match q pool t2))"
proof (cases "find (\<lambda>s. normalize_name q = normalize_name s) pool")
  case (Some c)
  then show ?thesis
    by (simp add: find_best_match_def find_best_match_run_def)
next
  case None
  have "threshold_sim t2 (None, 0) (None, 0)"
    by (simp add: threshold_sim_def)
  then have "threshold_sim t2 (foldl (fuzzy_step q t1) (None, 0) pool)
               (foldl (fuzzy_step q t2) (None, 0) pool)"
    using assms by (rule fuzzy_loop_sim [rotated])
  then show ?thesis
    using None unfolding threshold_sim_def find_best_match_def find_best_match_run_def
    by (auto simp: Let_def)
qed


theorem threshold_monotone_witness:
  "(1 / 2 :: rat) \<le> 4 / 5
   \<and> fst (find_best_match ''Fort Greene North'' [''Prospect Park'', ''Fort Greene Nort''] (1 / 2))
       = Some ''Fort Greene Nort''
   \<and> fst (find_best_match ''Fort Greene North'' [''Prospect Park'', ''Fort Greene Nort''] (4 / 5))
       = Some ''Fort Greene Nort''"
proof -
  have n: "normalize_name ''Fort Greene North'' = ''fort greene north''"
    "normalize_name ''Fort Greene Nort'' = ''fort greene nort''"
    "normalize_name ''Prospect Park'' = ''prospect''"
    by code_simp+
  have r: "ratio ''fort greene north'' ''fort greene nort'' = 32 / 33"
    by code_simp
  have w: "card (set (split_ws ''fort greene north'') \<inter> set (split_ws ''fort greene nort'')) = 2"
    "set (split_ws ''fort greene north'') \<inter> set (split_ws ''fort greene nort'') \<noteq> {}"
    "set (split_ws ''fort greene north'') \<inter> set (split_ws ''prospect'') = {}"
    by code_simp+
  have s: "similarity_score ''Fort Greene North'' ''Fort Greene Nort'' = 32 / 33"
    "similarity_score ''Fort Greene North'' ''Prospect Park'' = 0"
    by (simp_all add: similarity_score_def Let_def n r w)
  have a: "find_best_match ''Fort Greene North'' [''Prospect Park'', ''Fort Greene Nort''] (1 / 2)
             = (Some ''Fort Greene Nort'', 32 / 33)"
    by (simp add: find_best_match_def find_best_match_run_def fuzzy_step_def Let_def n s w)
  have b: "fst (find_best_match ''Fort Greene North'' [''Prospect Park'', ''Fort Greene Nort'']
             (4 / 5)) \<noteq> None"
    by (simp add: find_best_match_def find_best_match_run_def fuzzy_step_def Let_def n s w)
  have h: "(1 / 2 :: rat) \<le> 4 / 5" by simp
  have "fst (find_best_match ''Fort Greene North'' [''Prospect Park'', ''Fort Greene Nort''] (1 / 2))
        = fst (find_best_match ''Fort Greene North'' [''Prospect Park'', ''Fort Greene Nort''] (4 / 5))"
    by (rule threshold_monotone [OF h, THEN conjunct2, THEN mp]) (simp add: a b)
  then show ?thesis using a h by simp
qed

subsection \<open>The merge of one playground with one sprinkler record\<close>

text \<open>
  C8. With the sprinkler record \<open>{"subpropertyname": "Asser Levy Park", "status": "Active"}\<close>
  and the playground \<open>{"Name": "Asser Levy Playground"}\<close>, the output record carries
  \<open>has_sprinkler = true\<close> and \<open>sprinkler_status = "Active"\<close>, and it is the fuzzy branch of
  the loop that sets them: the comparison of the lowercased, trimmed names finds nothing,
  \<open>fuzzy_matched_count\<close> becomes 1 and \<open>matched_count\<close> stays 0. (Inside \<open>find_best_match\<close>,
  called with the threshold 0.8, the candidate is returned by the exact pass on the normalized
  names, with the score 1.)
\<close>

theorem end_to_end_asser_levy:
  assumes "distinct names" and "set names = {''Asser Levy Park''}"
  shows "(\<exists>lookup. build_pool ({}, Map.empty)
              [[(''subpropertyname'', JStr ''Asser Levy Park''), (''status'', JStr ''Active'')]]
            = Inr ({''Asser Levy Park''}, lookup))
         \<and> main_merge
              [[(''subpropertyname'', JStr ''Asser Levy Park''), (''status'', JStr ''Active'')]]
              [[(''Name'', JStr ''Asser Levy Playground'')]] names
            = Inr \<lparr>matched_count = 0, fuzzy_matched_count = 1,
                   enhanced_playgrounds =
                     [[(''Name'', JStr ''Asser Levy Playground''),
                       (''has_sprinkler'', JBool True),
                       (''sprinkler_status'', JStr ''Active''),
                       (''sprinkler_system'', JStr []),
                       (''sprinkler_district'', JStr [])]]\<rparr>
         \<and> find (\<lambda>sprinkler_name. strip (lower ''Asser Levy Playground'')
                                       = strip (lower sprinkler_name)) names = None
         \<and> find_best_match_run ''Asser Levy Playground'' names (4 / 5)
            = ((Some ''Asser Levy Park'', 1), 0)"
proof -
  have names: "names = [''Asser Levy Park'']"
    using assms by (rule singleton_order)
  have st: "strip ''Asser Levy Park'' = ''Asser Levy Park''"
    "strip ''Asser Levy Playground'' = ''Asser Levy Playground''"
    "strip (lower ''Asser Levy Park'') = ''asser levy park''"
    "strip (lower ''Asser Levy Playground'') = ''asser levy playground''"
    by code_simp+
  have n: "normalize_name ''Asser Levy Playground'' = ''asser levy''"
    "normalize_name ''Asser Levy Park'' = ''asser levy''"
    by code_simp+
  have run: "find_best_match_run ''Asser Levy Playground'' [''Asser Levy Park''] (4 / 5)
            = ((Some ''Asser Levy Park'', 1), 0)"
    by (simp add: find_best_match_run_def n)
  have pool: "build_pool ({}, Map.empty)
              [[(''subpropertyname'', JStr ''Asser Levy Park''), (''status'', JStr ''Active'')]]
            = Inr ({''Asser Levy Park''},
                   [''Asser Levy Park'' \<mapsto>
                      \<lparr>status = JStr ''Active'', system = JStr [], district = JStr [],
                       featuretype = JStr []\<rparr>])"
    by (simp add: add_sprinkler_def dict_get_def st)
  have "main_merge
              [[(''subpropertyname'', JStr ''Asser Levy Park''), (''status'', JStr ''Active'')]]
              [[(''Name'', JStr ''Asser Levy Playground'')]] [''Asser Levy Park'']
            = Inr \<lparr>matched_count = 0, fuzzy_matched_count = 1,
                   enhanced_playgrounds =
                     [[(''Name'', JStr ''Asser Levy Playground''),
                       (''has_sprinkler'', JBool True),
                       (''sprinkler_status'', JStr ''Active''),
                       (''sprinkler_system'', JStr []),
                       (''sprinkler_district'', JStr [])]]\<rparr>"
    unfolding main_merge_def pool
    by (simp add: process_playground_def dict_get_def st find_best_match_def run
          init_sprinkler_fields_def set_sprinkler_fields_def Let_def)
  then show ?thesis
    using pool run by (simp add: names st)
qed

theorem end_to_end_asser_levy_witness:
  "distinct [''Asser Levy Park''] \<and> set [''Asser Levy Park''] = {''Asser Levy Park''}
   \<and> main_merge
        [[(''subpropertyname'', JStr ''Asser Levy Park''), (''status'', JStr ''Active'')]]
        [[(''Name'', JStr ''Asser Levy Playground'')]] [''Asser Levy Park'']
      = Inr \<lparr>matched_count = 0, fuzzy_matched_count = 1,
             enhanced_playgrounds =
               [[(''Name'', JStr ''Asser Levy Playground''),
                 (''has_sprinkler'', JBool True),
                 (''sprinkler_status'', JStr ''Active''),
                 (''sprinkler_system'', JStr []),
                 (''sprinkler_district'', JStr [])]]\<rparr>"
proof -
  have d: "distinct [''Asser Levy Park'']" by simp
  have s: "set [''Asser Levy Park''] = {''Asser Levy Park''}" by simp
  show ?thesis
    using end_to_end_asser_levy [OF d s, THEN conjunct2, THEN conjunct1] d s by simp
qed

subsection \<open>Playgrounds without a name\<close>



subsection \<open>Names with an empty normalized form\<close>

text \<open>
  C10. When the normalized form of the query is empty, the first name of the pool whose
  normalized form is empty too is returned with the score 1, by the exact pass, although
  \<open>similarity_score\<close> gives that pair 0.
\<close>

theorem empty_normal_form_exact_match:
  assumes "normalize_name q = []" and "normalize_name c = []"
    and "\<forall>d \<in> set pre. normalize_name d \<noteq> []"
  shows "find_best_match q (pre @ c # post) t = (Some c, 1)
         \<and> snd (find_best_match_run q (pre @ c # post) t) = 0
         \<and> similarity_score q c = 0"
proof -
  have "find (\<lambda>s. normalize_name q = normalize_name s) (pre @ c # post) = Some c"
    using assms by (induction pre) auto
  then show ?thesis
    using assms by (simp add: find_best_match_def find_best_match_run_def similarity_score_def)
qed

theorem empty_normal_form_exact_match_witness:
  "normalize_name ''...'' = [] \<and> normalize_name '' - '' = []
   \<and> normalize_name ''Fort Greene Park'' \<noteq> []
   \<and> find_best_match ''...'' ([''Fort Greene Park''] @ '' - '' # [''!'']) (4 / 5)
        = (Some '' - '', 1)
   \<and> similarity_score ''...'' '' - '' = 0"
proof -
  have n: "normalize_name ''...'' = []" "normalize_name '' - '' = []"
    "normalize_name ''Fort Greene Park'' = ''fort greene''"
    by code_simp+
  have h: "\<forall>d \<in> set [''Fort Greene Park'']. normalize_name d \<noteq> []"
    by (simp add: n)
  show ?thesis
    using empty_normal_form_exact_match [OF n(1) n(2) h, of "[''!'']" "4 / 5"] n
    by simp
qed

end
